theory Spec2Isabelle
  imports Main
begin

section \<open>The executor of lib/vdsm/executor.py\<close>

text \<open>
  The module implements a pool of worker threads fed by a bounded queue. The embedding is
  sequential: every method is a function on an explicit state, an exception is the
  \<open>Inl\<close> branch of the result and the state that comes with it is the state the
  exception leaves behind. Locks are not modelled (each method body is one atomic step),
  and the points where another thread interferes are parameters of the model.
\<close>

subsection \<open>Exceptions\<close>

text \<open>
  \<open>NotRunning\<close>, \<open>AlreadyStarted\<close>, \<open>TooManyTasks\<close> and \<open>WorkerDiscarded\<close> are the
  exception classes of the module. \<open>AssertionError\<close> and \<open>KeyError\<close> are the built-in
  exceptions raised by \<open>_discard\<close> and by \<open>set.remove\<close>. \<open>BaseException\<close> stands for an
  exception raised by a callable that is not an instance of \<open>Exception\<close> (\<open>SystemExit\<close>,
  \<open>KeyboardInterrupt\<close>, \<open>GeneratorExit\<close>).
\<close>

datatype error =
    NotRunning
  | AlreadyStarted
  | TooManyTasks
  | WorkerDiscarded
  | AssertionError
  | KeyError
  | BaseException

subsection \<open>TaskQueue\<close>

text \<open>
  \<open>max_tasks\<close> is a Python integer, so any \<open>int\<close>; \<open>tasks\<close> is the deque, head
  first.
\<close>

record 'a TaskQueue =
  max_tasks :: int
  tasks :: "'a list"

definition TaskQueue_init :: "int \<Rightarrow> 'a TaskQueue" where
  "TaskQueue_init m = \<lparr>max_tasks = m, tasks = []\<rparr>"

text \<open>\<open>put\<close>: the length is compared with \<open>==\<close>, the raise comes before the append.\<close>

definition put :: "'a \<Rightarrow> 'a TaskQueue \<Rightarrow> (error + unit) \<times> 'a TaskQueue" where
  "put task q =
     (if int (length (tasks q)) = max_tasks q then (Inl TooManyTasks, q)
      else (Inr (), q\<lparr>tasks := tasks q @ [task]\<rparr>))"

text \<open>
  \<open>get\<close> pops the head. On an empty deque \<open>popleft\<close> raises \<open>IndexError\<close> and the caller
  waits on the condition; with no other thread running it waits forever: \<open>None\<close>.
\<close>

definition get :: "'a TaskQueue \<Rightarrow> ('a \<times> 'a TaskQueue) option" where
  "get q = (case tasks q of [] \<Rightarrow> None | x # xs \<Rightarrow> Some (x, q\<lparr>tasks := xs\<rparr>))"

definition clear :: "'a TaskQueue \<Rightarrow> 'a TaskQueue" where
  "clear q = q\<lparr>tasks := []\<rparr>"

text \<open>
  A client of the queue calls \<open>put\<close> and \<open>get\<close> in some order. A rejected \<open>put\<close> and a
  \<open>get\<close> that finds the queue empty leave the queue as it is.
\<close>

datatype 'a queue_call = Put 'a | Get

fun apply_call :: "'a queue_call \<Rightarrow> 'a TaskQueue \<Rightarrow> 'a TaskQueue" where
  "apply_call (Put x) q = snd (put x q)"
| "apply_call Get q = (case get q of None \<Rightarrow> q | Some (x, q') \<Rightarrow> q')"

text \<open>The puts of one thread, in order, and \<open>n\<close> gets in a row with what they returned.\<close>

definition puts :: "'a list \<Rightarrow> 'a TaskQueue \<Rightarrow> 'a TaskQueue" where
  "puts xs q = fold (\<lambda>x. apply_call (Put x)) xs q"

fun gets :: "nat \<Rightarrow> 'a TaskQueue \<Rightarrow> 'a list \<times> 'a TaskQueue" where
  "gets 0 q = ([], q)"
| "gets (Suc n) q =
     (case get q of
        None \<Rightarrow> ([], q)
      | Some (x, q') \<Rightarrow> (case gets n q' of (ys, q'') \<Rightarrow> (x # ys, q'')))"

subsection \<open>Tasks and workers\<close>

text \<open>
  \<open>Task\<close> is the named tuple of a callable and a timeout (\<open>None\<close> when there is none).
  The queue holds tasks and the sentinel \<open>_STOP\<close>.
\<close>

datatype ('c, 't) Task = Task (callable: 'c) (timeout: "'t option")

datatype ('c, 't) item = STOP | TaskItem "('c, 't) Task"

text \<open>
  The attributes of a \<open>_Worker\<close> that change: its name is the name of its thread,
  \<open>wtask\<close> is the attribute \<open>_task\<close>.
\<close>

record ('c, 't) Worker =
  wname :: string
  discarded :: bool
  wtask :: "('c, 't) Task option"

text \<open>The records written to the logger \<open>Executor\<close>, one constructor for each call.\<close>

datatype ('c, 't) log_entry =
    StartingExecutor
  | StoppingExecutor
  | ExecutorState nat
  | StartingWorker string
  | WorkerStarted
  | WorkerStopped
  | WorkerWasDiscarded
  | UnhandledException "('c, 't) Task"
  | WorkerDiscardedMsg "('c, 't) Worker"

subsection \<open>Executor\<close>

text \<open>
  The attributes of the \<open>Executor\<close>, followed by the three stores that its methods and
  its workers write to: \<open>heap\<close> holds every \<open>_Worker\<close> object created so far, and a
  worker is referred to by its position there (an object is never equal to another one,
  and the set \<open>_workers\<close> holds references); \<open>log\<close> is what the logger received;
  \<open>calls\<close> lists the callables that workers have called, in the order of the calls
  (what a callable does to the world is seen here as the fact that it ran). The scheduler
  and the lock are not part of the state.
\<close>

record ('c, 't) Executor =
  name :: string
  workers_count :: int
  worker_id :: int
  queue :: "('c, 't) item TaskQueue"
  workers :: "nat set"
  running :: bool
  heap :: "('c, 't) Worker list"
  log :: "('c, 't) log_entry list"
  calls :: "'c list"

definition Executor_init :: "string \<Rightarrow> int \<Rightarrow> int \<Rightarrow> ('c, 't) Executor" where
  "Executor_init nm n m =
     \<lparr>name = nm, workers_count = n, worker_id = 0, queue = TaskQueue_init m,
      workers = {}, running = False, heap = [], log = [], calls = []\<rparr>"

definition debug :: "('c, 't) log_entry \<Rightarrow> ('c, 't) Executor \<Rightarrow> ('c, 't) Executor" where
  "debug e s = s\<lparr>log := log s @ [e]\<rparr>"

text \<open>The conversion \<open>%d\<close> of an integer: decimal digits, a minus sign when negative.\<close>

fun digits :: "nat \<Rightarrow> string" where
  "digits n =
     (if n < 10 then [''0123456789'' ! n]
      else digits (n div 10) @ [''0123456789'' ! (n mod 10)])"

declare digits.simps [simp del]

definition format_d :: "int \<Rightarrow> string" where
  "format_d i = (if i < 0 then CHR ''-'' # digits (nat (- i)) else digits (nat i))"

text \<open>
  \<open>_Worker.__init__\<close> creates the object and starts its thread; the thread runs when the
  model runs it (\<open>run\<close> below). The result is the reference to the new object. The
  module \<open>concurrent\<close>, whose function \<open>thread\<close> creates the thread, is not among the
  sources: the thread is taken to carry the name it is given, which is the name that the
  worker reports.
\<close>

definition Worker_init :: "string \<Rightarrow> ('c, 't) Executor \<Rightarrow> nat \<times> ('c, 't) Executor" where
  "Worker_init nm s =
     (length (heap s),
      (debug (StartingWorker nm) s)
        \<lparr>heap := heap s @ [\<lparr>wname = nm, discarded = False, wtask = None\<rparr>]\<rparr>)"

definition add_worker :: "('c, 't) Executor \<Rightarrow> ('c, 't) Executor" where
  "add_worker s =
     (let nm = name s @ ''/'' @ format_d (worker_id s);
          s1 = s\<lparr>worker_id := worker_id s + 1\<rparr>;
          (worker, s2) = Worker_init nm s1
      in s2\<lparr>workers := insert worker (workers s2)\<rparr>)"

text \<open>\<open>range(n)\<close> is empty for a negative \<open>n\<close>, hence \<open>nat\<close>.\<close>

definition start :: "('c, 't) Executor \<Rightarrow> (error + unit) \<times> ('c, 't) Executor" where
  "start s0 =
     (let s = debug StartingExecutor s0
      in if running s then (Inl AlreadyStarted, s)
         else (Inr (), (add_worker ^^ nat (workers_count s)) (s\<lparr>running := True\<rparr>)))"

text \<open>The loop of \<open>stop\<close>: \<open>n\<close> times \<open>put\<close>, left at the first exception.\<close>

fun put_times :: "nat \<Rightarrow> 'a \<Rightarrow> 'a TaskQueue \<Rightarrow> (error + unit) \<times> 'a TaskQueue" where
  "put_times 0 x q = (Inr (), q)"
| "put_times (Suc n) x q =
     (case put x q of
        (Inl e, q') \<Rightarrow> (Inl e, q')
      | (Inr u, q') \<Rightarrow> put_times n x q')"

text \<open>
  \<open>stop\<close> up to the release of the lock. Its value is the tuple of workers that the caller
  then joins (empty without \<open>wait\<close>); joining waits for other threads and is not modelled.
\<close>

definition stop :: "bool \<Rightarrow> ('c, 't) Executor \<Rightarrow> (error + nat set) \<times> ('c, 't) Executor" where
  "stop wait s0 =
     (let s1 = debug StoppingExecutor s0;
          s2 = s1\<lparr>running := False\<rparr>;
          s3 = s2\<lparr>queue := clear (queue s2)\<rparr>
      in case put_times (nat (workers_count s3)) STOP (queue s3) of
           (Inl e, q) \<Rightarrow> (Inl e, s3\<lparr>queue := q\<rparr>)
         | (Inr u, q) \<Rightarrow> (Inr (if wait then workers s3 else {}), s3\<lparr>queue := q\<rparr>))"

definition dispatch ::
  "'c \<Rightarrow> 't option \<Rightarrow> ('c, 't) Executor \<Rightarrow> (error + unit) \<times> ('c, 't) Executor" where
  "dispatch c t s =
     (if \<not> running s then (Inl NotRunning, s)
      else case put (TaskItem (Task c t)) (queue s) of (r, q) \<Rightarrow> (r, s\<lparr>queue := q\<rparr>))"

definition worker_discarded :: "nat \<Rightarrow> ('c, 't) Executor \<Rightarrow> ('c, 't) Executor" where
  "worker_discarded worker s =
     (let s1 = (if running s then add_worker s else s)
      in debug (ExecutorState (card (workers s1))) s1)"

text \<open>\<open>set.remove\<close> raises \<open>KeyError\<close> when the element is missing.\<close>

definition worker_stopped ::
  "nat \<Rightarrow> ('c, 't) Executor \<Rightarrow> (error + unit) \<times> ('c, 't) Executor" where
  "worker_stopped worker s =
     (if worker \<in> workers s then (Inr (), s\<lparr>workers := workers s - {worker}\<rparr>)
      else (Inl KeyError, s))"

text \<open>\<open>None\<close>: the caller is blocked in \<open>get\<close>.\<close>

definition next_task ::
  "('c, 't) Executor \<Rightarrow> ((error + ('c, 't) Task) \<times> ('c, 't) Executor) option" where
  "next_task s =
     (case get (queue s) of
        None \<Rightarrow> None
      | Some (x, q) \<Rightarrow>
          Some (case x of STOP \<Rightarrow> Inl NotRunning | TaskItem task \<Rightarrow> Inr task, s\<lparr>queue := q\<rparr>))"

subsection \<open>The worker\<close>

definition set_discarded :: "nat \<Rightarrow> bool \<Rightarrow> ('c, 't) Executor \<Rightarrow> ('c, 't) Executor" where
  "set_discarded w b s = s\<lparr>heap := (heap s)[w := (heap s ! w)\<lparr>discarded := b\<rparr>]\<rparr>"

definition set_task ::
  "nat \<Rightarrow> ('c, 't) Task option \<Rightarrow> ('c, 't) Executor \<Rightarrow> ('c, 't) Executor" where
  "set_task w t s = s\<lparr>heap := (heap s)[w := (heap s ! w)\<lparr>wtask := t\<rparr>]\<rparr>"

text \<open>\<open>_discard\<close>, the callback that the scheduler runs when a timer expires.\<close>

definition discard :: "nat \<Rightarrow> ('c, 't) Executor \<Rightarrow> (error + unit) \<times> ('c, 't) Executor" where
  "discard w s =
     (if discarded (heap s ! w) then (Inl AssertionError, s)
      else let s1 = set_discarded w True s;
               s2 = debug (WorkerDiscardedMsg (heap s1 ! w)) s1
           in (Inr (), worker_discarded w s2))"

text \<open>
  The handle that \<open>schedule\<close> returns stands for the armed timer; \<open>None\<close> when the task
  has no timeout.
\<close>

datatype 't handle = ScheduledCall 't

definition discard_after :: "'t option \<Rightarrow> 't handle option" where
  "discard_after t = (case t of Some d \<Rightarrow> Some (ScheduledCall d) | None \<Rightarrow> None)"

text \<open>
  What lies outside the module: how a call of the callable ends, and whether the scheduler
  runs the timer callback of the task before the worker reads its flag at the end of
  the iteration (\<open>cancel\<close> is best effort).
\<close>

datatype outcome = Returns | RaisesException | RaisesBaseException

record ('c, 't) env =
  call :: "'c \<Rightarrow> outcome"
  expires :: "('c, 't) Task \<Rightarrow> bool"

text \<open>The call \<open>task.callable()\<close> as far as the state records it.\<close>

definition called :: "'c \<Rightarrow> ('c, 't) Executor \<Rightarrow> ('c, 't) Executor" where
  "called c s = s\<lparr>calls := calls s @ [c]\<rparr>"

text \<open>
  \<open>_execute_task\<close>. The callback runs in the scheduler's thread, where its exception
  stays. \<open>except Exception\<close> catches \<open>RaisesException\<close> only; the \<open>finally\<close> block
  runs in every case and its \<open>raise\<close> replaces an exception on its way out.
\<close>

definition execute_task ::
  "('c, 't) env \<Rightarrow> nat \<Rightarrow> ('c, 't) Executor \<Rightarrow>
   ((error + unit) \<times> ('c, 't) Executor) option" where
  "execute_task e w s =
     (case next_task s of
        None \<Rightarrow> None
      | Some (Inl x, s1) \<Rightarrow> Some (Inl x, s1)
      | Some (Inr task, s1) \<Rightarrow>
          (let timer = discard_after (timeout task);
               s2 = called (callable task) (set_task w (Some task) s1);
               res = call e (callable task);
               s3 = (if timer \<noteq> None \<and> expires e task then snd (discard w s2) else s2);
               s4 = (if res = RaisesException then debug (UnhandledException task) s3 else s3);
               s5 = set_task w None s4
           in Some (if discarded (heap s5 ! w) then Inl WorkerDiscarded
                    else if res = RaisesBaseException then Inl BaseException
                    else Inr (),
                    s5)))"

text \<open>
  How far a thread got: it waits in \<open>get\<close>, its function returned, or its function was
  left by an exception.
\<close>

datatype thread = Waiting | Exited | Died error

text \<open>
  The try statement of \<open>_run\<close> around the endless loop: the two handlers, then the
  \<open>finally\<close> block, whose own exception would replace the pending one.
\<close>

definition leave_loop ::
  "error \<Rightarrow> nat \<Rightarrow> ('c, 't) Executor \<Rightarrow> thread \<times> ('c, 't) Executor" where
  "leave_loop x w s =
     (let s1 = (if x = NotRunning then debug WorkerStopped s
                else if x = WorkerDiscarded then debug WorkerWasDiscarded s
                else s)
      in case worker_stopped w s1 of
           (Inl k, s2) \<Rightarrow> (Died k, s2)
         | (Inr u, s2) \<Rightarrow>
             (if x = NotRunning \<or> x = WorkerDiscarded then Exited else Died x, s2))"

function run_loop ::
  "('c, 't) env \<Rightarrow> nat \<Rightarrow> ('c, 't) Executor \<Rightarrow> thread \<times> ('c, 't) Executor" where
  "run_loop e w s =
     (case execute_task e w s of
        None \<Rightarrow> (Waiting, s)
      | Some (Inl x, s1) \<Rightarrow> leave_loop x w s1
      | Some (Inr u, s1) \<Rightarrow> run_loop e w s1)"
  by pat_completeness auto

termination run_loop
proof (relation "measure (\<lambda>(e, w, s). length (tasks (queue s)))", goal_cases)
  case 1
  show ?case by simp
next
  case (2 e w s r p s1 u)
  have same: "queue (snd (discard v t)) = queue t" for v and t :: "('a, 'b) Executor"
    by (simp add: discard_def worker_discarded_def add_worker_def Worker_init_def
        set_discarded_def debug_def Let_def)
  from 2 have "execute_task e w s = Some (Inr u, s1)" by simp
  then have "length (tasks (queue s1)) < length (tasks (queue s))"
    by (auto simp: execute_task_def called_def next_task_def get_def same set_task_def debug_def Let_def
        split: option.splits list.splits sum.splits prod.splits item.splits if_splits)
  then show ?case by simp
qed

text \<open>\<open>_run\<close>, the function of the worker's thread (the name given to the OS is left out).\<close>

definition run :: "('c, 't) env \<Rightarrow> nat \<Rightarrow> ('c, 't) Executor \<Rightarrow> thread \<times> ('c, 't) Executor" where
  "run e w s = run_loop e w (debug WorkerStarted s)"

subsection \<open>Histories\<close>

text \<open>
  What can happen to an executor, one event at a time: a call of a public method, a
  worker's thread running from its start (\<open>Run\<close>) or from where it waited (\<open>Resume\<close>)
  until it waits or ends, and the scheduler running the timer callback of a worker
  (\<open>Timer\<close>). Events on a worker concern existing workers only.
\<close>

datatype ('c, 't) event =
    Start
  | Stop bool
  | Dispatch 'c "'t option"
  | Run nat
  | Resume nat
  | Timer nat

fun step :: "('c, 't) env \<Rightarrow> ('c, 't) event \<Rightarrow> ('c, 't) Executor \<Rightarrow> ('c, 't) Executor" where
  "step e Start s = snd (start s)"
| "step e (Stop wait) s = snd (stop wait s)"
| "step e (Dispatch c t) s = snd (dispatch c t s)"
| "step e (Run w) s = (if w < length (heap s) then snd (run e w s) else s)"
| "step e (Resume w) s = (if w < length (heap s) then snd (run_loop e w s) else s)"
| "step e (Timer w) s = (if w < length (heap s) then snd (discard w s) else s)"

text \<open>The calls of \<open>start\<close> and \<open>stop\<close> alone.\<close>

datatype lifecycle_call = CallStart | CallStop bool

fun lifecycle :: "lifecycle_call \<Rightarrow> ('c, 't) Executor \<Rightarrow> ('c, 't) Executor" where
  "lifecycle CallStart s = snd (start s)"
| "lifecycle (CallStop wait) s = snd (stop wait s)"

text \<open>
  Two properties of a state: every reference in the set of workers points to an existing
  worker object, and the workers created so far carry the names built from the counter
  values \<open>0, 1, 2, ...\<close> in the order of their creation.
\<close>

definition valid_refs :: "('c, 't) Executor \<Rightarrow> bool" where
  "valid_refs s = (finite (workers s) \<and> (\<forall>r \<in> workers s. r < length (heap s)))"

definition names_ok :: "('c, 't) Executor \<Rightarrow> bool" where
  "names_ok s =
     (worker_id s = int (length (heap s)) \<and>
      map wname (heap s) =
        map (\<lambda>i. name s @ ''/'' @ format_d (int i)) [0..<length (heap s)])"

text \<open>
  Every call of \<open>_worker_discarded\<close> writes one \<open>ExecutorState\<close> record, and nothing
  else writes one: their number in the log is the number of times the executor was told
  that a worker was discarded.
\<close>

fun notifications :: "('c, 't) log_entry list \<Rightarrow> nat" where
  "notifications [] = 0"
| "notifications (ExecutorState n # es) = Suc (notifications es)"
| "notifications (e # es) = notifications es"

definition consistent :: "('c, 't) Executor \<Rightarrow> bool" where
  "consistent s = (valid_refs s \<and> names_ok s)"

text \<open>
  How a later state relates to an earlier one of the same executor: the name is the same,
  the counter is not smaller, and consistency is kept.
\<close>

definition extends :: "('c, 't) Executor \<Rightarrow> ('c, 't) Executor \<Rightarrow> bool" where
  "extends s s' =
     (name s' = name s \<and> worker_id s \<le> worker_id s' \<and> (consistent s \<longrightarrow> consistent s'))"

subsection \<open>An example\<close>

text \<open>
  An executor with one worker and a queue of capacity two, started, to which the
  callable \<open>0\<close> with timeout \<open>5\<close> and the callable \<open>1\<close> without timeout were
  dispatched; and four surroundings: every callable returns and every timer expires in
  time to be seen; the callable \<open>0\<close> raises an \<open>Exception\<close> and no timer expires;
  every callable returns and no timer expires; the callable \<open>0\<close> raises \<open>SystemExit\<close>
  and no timer expires.
\<close>

abbreviation example_pool :: "(nat, nat) Executor" where
  "example_pool \<equiv>
     snd (dispatch 1 None (snd (dispatch 0 (Some 5) (snd (start (Executor_init ''pool'' 1 2))))))"


abbreviation failing :: "(nat, nat) env" where
  "failing \<equiv> \<lparr>call = (\<lambda>c. if c = 0 then RaisesException else Returns), expires = (\<lambda>t. False)\<rparr>"

abbreviation quiet :: "(nat, nat) env" where
  "quiet \<equiv> \<lparr>call = (\<lambda>c. Returns), expires = (\<lambda>t. False)\<rparr>"


abbreviation exiting :: "(nat, nat) env" where
  "exiting \<equiv>
     \<lparr>call = (\<lambda>c. if c = 0 then RaisesBaseException else Returns), expires = (\<lambda>t. False)\<rparr>"

section \<open>Properties of the queue\<close>

lemma max_tasks_apply_call [simp]: "max_tasks (apply_call c q) = max_tasks q"
  by (cases c) (auto simp: put_def get_def split: list.splits)

lemma max_tasks_fold_apply_call [simp]:
  "max_tasks (fold apply_call cs q) = max_tasks q"
  by (induction cs arbitrary: q) simp_all

lemma apply_call_bounded:
  assumes "int (length (tasks q)) \<le> max_tasks q"
  shows "int (length (tasks (apply_call c q))) \<le> max_tasks q"
proof (cases c)
  case (Put x)
  with assms show ?thesis by (auto simp: put_def)
next
  case Get
  with assms show ?thesis by (auto simp: get_def split: list.splits)
qed

lemma fold_apply_call_bounded:
  "int (length (tasks q)) \<le> max_tasks q \<Longrightarrow>
   int (length (tasks (fold apply_call cs q))) \<le> max_tasks q"
proof (induction cs arbitrary: q)
  case Nil
  then show ?case by simp
next
  case (Cons c cs)
  from Cons.prems have "int (length (tasks (apply_call c q))) \<le> max_tasks (apply_call c q)"
    using apply_call_bounded [of q c] by simp
  from Cons.IH [OF this] show ?case by simp
qed

text \<open>
  C6. A \<open>put\<close> on a queue that holds exactly \<open>max_tasks\<close> items raises \<open>TooManyTasks\<close>
  and returns the queue as it was. A capacity is a number of items: for a capacity \<open>M\<close>
  that is not negative, a queue created with capacity \<open>M\<close> holds at most \<open>M\<close> items after
  any sequence of \<open>put\<close> and \<open>get\<close> calls.
\<close>

theorem put_full_raises_and_bounded:
  "(int (length (tasks q)) = max_tasks q \<longrightarrow> put x q = (Inl TooManyTasks, q)) \<and>
   (0 \<le> M \<longrightarrow> int (length (tasks (fold apply_call cs (TaskQueue_init M)))) \<le> M)"
proof -
  have "int (length (tasks (fold apply_call cs (TaskQueue_init M :: 'b TaskQueue)))) \<le> M"
    if "0 \<le> M"
    using fold_apply_call_bounded [of "TaskQueue_init M :: 'b TaskQueue" cs] that
    by (simp add: TaskQueue_init_def)
  then show ?thesis by (simp add: put_def)
qed

theorem put_full_raises_and_bounded_witness:
  "put (7::nat) \<lparr>max_tasks = 1, tasks = [5]\<rparr> = (Inl TooManyTasks, \<lparr>max_tasks = 1, tasks = [5]\<rparr>) \<and>
   int (length (tasks (fold apply_call [Put (1::nat), Put 2, Get, Put 3, Put 4]
     (TaskQueue_init 2)))) \<le> 2"
  using put_full_raises_and_bounded
    [of "\<lparr>max_tasks = 1, tasks = [5::nat]\<rparr>" 7 2 "[Put (1::nat), Put 2, Get, Put 3, Put 4]"]
  by simp

lemma puts_full: "int (length (tasks q)) = max_tasks q \<Longrightarrow> puts xs q = q"
  by (induction xs) (simp_all add: puts_def put_def)

lemma puts_Cons: "puts (x # xs) q = puts xs (snd (put x q))"
  by (simp add: puts_def)

lemma tasks_puts_prefix: "\<exists>k. tasks (puts xs q) = tasks q @ take k xs"
proof (induction xs arbitrary: q)
  case Nil
  then show ?case by (simp add: puts_def)
next
  case (Cons x xs)
  show ?case
  proof (cases "int (length (tasks q)) = max_tasks q")
    case True
    then have "tasks (puts (x # xs) q) = tasks q @ take 0 (x # xs)"
      by (simp add: puts_full)
    then show ?thesis ..
  next
    case False
    then have app: "snd (put x q) = q\<lparr>tasks := tasks q @ [x]\<rparr>" by (simp add: put_def)
    from Cons.IH [of "q\<lparr>tasks := tasks q @ [x]\<rparr>"] obtain k
      where "tasks (puts xs (q\<lparr>tasks := tasks q @ [x]\<rparr>)) = (tasks q @ [x]) @ take k xs"
      by auto
    with app have "tasks (puts (x # xs) q) = tasks q @ take (Suc k) (x # xs)"
      by (simp add: puts_Cons)
    then show ?thesis ..
  qed
qed

lemma puts_fit:
  "int (length (tasks q) + length xs) \<le> max_tasks q \<Longrightarrow> puts xs q = q\<lparr>tasks := tasks q @ xs\<rparr>"
proof (induction xs arbitrary: q)
  case Nil
  then show ?case by (simp add: puts_def)
next
  case (Cons x xs)
  then have room: "int (length (tasks q)) \<noteq> max_tasks q" by simp
  then have app: "snd (put x q) = q\<lparr>tasks := tasks q @ [x]\<rparr>" by (simp add: put_def)
  from Cons.prems have "int (length (tasks (q\<lparr>tasks := tasks q @ [x]\<rparr>)) + length xs)
      \<le> max_tasks (q\<lparr>tasks := tasks q @ [x]\<rparr>)"
    by simp
  from Cons.IH [OF this] app show ?case by (simp add: puts_Cons)
qed

lemma gets_take_drop: "gets n q = (take n (tasks q), q\<lparr>tasks := drop n (tasks q)\<rparr>)"
proof (induction n arbitrary: q)
  case 0
  then show ?case by simp
next
  case (Suc n)
  show ?case
  proof (cases "tasks q")
    case Nil
    then show ?thesis by (simp add: get_def)
  next
    case (Cons x xs)
    with Suc.IH [of "q\<lparr>tasks := xs\<rparr>"] show ?thesis by (simp add: get_def)
  qed
qed

text \<open>
  C9. The items that a thread puts are appended to the tail in the order of the calls (a
  rejected \<open>put\<close> appends nothing, so what is accepted is a prefix of what was
  offered, and everything when it fits the capacity); a \<open>get\<close> takes the head, so
  \<open>n\<close> gets after the puts return the first \<open>n\<close> items of the queue in that order and
  leave the rest.
\<close>

theorem put_get_fifo:
  "(\<exists>k. tasks (puts xs q) = tasks q @ take k xs) \<and>
   (int (length (tasks q) + length xs) \<le> max_tasks q \<longrightarrow>
      tasks (puts xs q) = tasks q @ xs \<and>
      gets n (puts xs q) = (take n (tasks q @ xs), q\<lparr>tasks := drop n (tasks q @ xs)\<rparr>)) \<and>
   gets n (puts xs q) = (take n (tasks (puts xs q)), (puts xs q)\<lparr>tasks := drop n (tasks (puts xs q))\<rparr>) \<and>
   (get p = Some (y, p') \<longrightarrow> tasks p = y # tasks p')"
proof -
  have "get p = Some (y, p') \<longrightarrow> tasks p = y # tasks p'"
    by (auto simp: get_def split: list.splits)
  moreover have "gets n (puts xs q) = (take n (tasks q @ xs), q\<lparr>tasks := drop n (tasks q @ xs)\<rparr>)"
    if "int (length (tasks q) + length xs) \<le> max_tasks q"
    using puts_fit [OF that] by (simp add: gets_take_drop)
  ultimately show ?thesis
    using tasks_puts_prefix [of xs q] puts_fit [of q xs] gets_take_drop [of n "puts xs q"]
    by simp
qed

theorem put_get_fifo_witness:
  "int (length (tasks (TaskQueue_init 3 :: nat TaskQueue)) + length [4, 5, 6 :: nat])
     \<le> max_tasks (TaskQueue_init 3 :: nat TaskQueue) \<and>
   gets 2 (puts [4, 5, 6 :: nat] (TaskQueue_init 3)) = ([4, 5], \<lparr>max_tasks = 3, tasks = [6]\<rparr>) \<and>
   get \<lparr>max_tasks = 3, tasks = [4, 5 :: nat]\<rparr> = Some (4, \<lparr>max_tasks = 3, tasks = [5]\<rparr>)"
  using put_get_fifo [of "[4, 5, 6 :: nat]" "TaskQueue_init 3" 2
      "\<lparr>max_tasks = 3, tasks = [4, 5 :: nat]\<rparr>" 4 "\<lparr>max_tasks = 3, tasks = [5]\<rparr>"]
  by (simp add: TaskQueue_init_def get_def)

section \<open>Properties of the executor\<close>

lemma running_add_worker [simp]: "running (add_worker s) = running s"
  by (simp add: add_worker_def Worker_init_def debug_def Let_def)

lemma running_add_workers [simp]: "running ((add_worker ^^ n) s) = running s"
  by (induction n) simp_all

lemma running_start: "running (snd (start s))"
  by (simp add: start_def debug_def Let_def)

lemma start_ok_iff: "(fst (start s) = Inr ()) = (\<not> running s)"
  by (simp add: start_def debug_def Let_def)

lemma start_again: "running s \<Longrightarrow> start s = (Inl AlreadyStarted, debug StartingExecutor s)"
  by (simp add: start_def debug_def Let_def)

lemma running_stop: "\<not> running (snd (stop wait s))"
  by (simp add: stop_def debug_def Let_def split: prod.splits sum.splits)

lemma running_lifecycle: "running (lifecycle c s) = (c = CallStart)"
  by (cases c) (simp_all add: running_start running_stop)

lemma running_fold_lifecycle:
  "running (fold lifecycle cs s) = (if cs = [] then running s else last cs = CallStart)"
  by (induction cs arbitrary: s) (simp_all add: running_lifecycle)

text \<open>
  C4, as the code has it. A new executor is not running. \<open>start\<close> succeeds exactly when
  the executor is not running, whatever happened before; on a running executor it raises
  \<open>AlreadyStarted\<close> and changes nothing but the log. After \<open>start\<close> the executor is
  running, after \<open>stop\<close> it is not. So after any sequence of \<open>start\<close> and \<open>stop\<close>
  calls the executor is running exactly when the last call was a \<open>start\<close>.
\<close>

theorem running_follows_last_call:
  "\<not> running (Executor_init nm n m) \<and>
   (fst (start s) = Inr ()) = (\<not> running s) \<and>
   (running s \<longrightarrow> start s = (Inl AlreadyStarted, debug StartingExecutor s)) \<and>
   running (snd (start s)) \<and>
   \<not> running (snd (stop wait s)) \<and>
   running (fold lifecycle cs (Executor_init nm n m)) = (cs \<noteq> [] \<and> last cs = CallStart)"
  by (simp add: running_start start_ok_iff start_again running_stop running_fold_lifecycle
      Executor_init_def)

theorem running_follows_last_call_witness:
  "running ((Executor_init ''pool'' 1 1 :: (nat, nat) Executor)\<lparr>running := True\<rparr>) \<and>
   start ((Executor_init ''pool'' 1 1 :: (nat, nat) Executor)\<lparr>running := True\<rparr>) =
     (Inl AlreadyStarted,
      debug StartingExecutor
        ((Executor_init ''pool'' 1 1 :: (nat, nat) Executor)\<lparr>running := True\<rparr>))"
  using running_follows_last_call
    [of "''pool''" 1 1 "(Executor_init ''pool'' 1 1 :: (nat, nat) Executor)\<lparr>running := True\<rparr>"
      True "[]"]
  by (simp add: Executor_init_def)

text \<open>
  C4 as stated says that no \<open>start\<close> after a \<open>stop\<close> succeeds. The flag is the only
  thing \<open>start\<close> looks at, and \<open>stop\<close> resets it: a third call, \<open>start\<close> after
  \<open>start\<close> and \<open>stop\<close>, succeeds and the executor is running again.
\<close>

theorem restart_succeeds:
  "fst (start (snd (stop True (snd (start (Executor_init ''pool'' 1 1 :: (nat, nat) Executor))))))
     = Inr () \<and>
   running (fold lifecycle [CallStart, CallStop True, CallStart]
     (Executor_init ''pool'' 1 1 :: (nat, nat) Executor))"
  by (simp add: start_ok_iff running_stop running_start)

lemma put_times_result:
  "put_times n x q =
     (if int (length (tasks q)) \<le> max_tasks q \<and> nat (max_tasks q) - length (tasks q) < n
      then (Inl TooManyTasks, q\<lparr>tasks := tasks q @ replicate (nat (max_tasks q) - length (tasks q)) x\<rparr>)
      else (Inr (), q\<lparr>tasks := tasks q @ replicate n x\<rparr>))"
proof (induction n arbitrary: q)
  case 0
  then show ?case by simp
next
  case (Suc n)
  show ?case
  proof (cases "int (length (tasks q)) = max_tasks q")
    case True
    then show ?thesis by (simp add: put_def)
  next
    case False
    let ?q = "q\<lparr>tasks := tasks q @ [x]\<rparr>"
    from False have unfold: "put_times (Suc n) x q = put_times n x ?q" by (simp add: put_def)
    show ?thesis
    proof (cases "int (length (tasks q)) < max_tasks q")
      case True
      then have "nat (max_tasks q) - length (tasks q)
          = Suc (nat (max_tasks q) - Suc (length (tasks q)))"
        by linarith
      with True show ?thesis
        unfolding unfold Suc.IH [of ?q] by (simp add: replicate_app_Cons_same)
    next
      case above: False
      with False show ?thesis
        unfolding unfold Suc.IH [of ?q] by (simp add: replicate_app_Cons_same)
    qed
  qed
qed

lemma stop_result:
  "stop wait s =
     (if 0 \<le> max_tasks (queue s) \<and> nat (max_tasks (queue s)) < nat (workers_count s)
      then (Inl TooManyTasks,
            (debug StoppingExecutor s)
              \<lparr>running := False,
               queue := (queue s)\<lparr>tasks := replicate (nat (max_tasks (queue s))) STOP\<rparr>\<rparr>)
      else (Inr (if wait then workers s else {}),
            (debug StoppingExecutor s)
              \<lparr>running := False,
               queue := (queue s)\<lparr>tasks := replicate (nat (workers_count s)) STOP\<rparr>\<rparr>))"
  by (simp add: stop_def put_times_result clear_def debug_def Let_def)

lemma start_frame:
  "workers_count (snd (start s)) = workers_count s \<and> queue (snd (start s)) = queue s \<and>
   name (snd (start s)) = name s"
proof -
  have "workers_count ((add_worker ^^ n) t) = workers_count t \<and>
        queue ((add_worker ^^ n) t) = queue t \<and> name ((add_worker ^^ n) t) = name t"
    for n and t :: "('a, 'b) Executor"
    by (induction n) (simp_all add: add_worker_def Worker_init_def debug_def Let_def)
  then show ?thesis by (simp add: start_def debug_def Let_def)
qed

text \<open>
  \<open>stop\<close> succeeds, and leaves one sentinel for each configured worker in the queue,
  when the capacity of the queue is at least the number of workers.
\<close>

lemma stop_within_capacity:
  assumes "workers_count s \<le> max_tasks (queue s)"
  shows "fst (stop wait s) = Inr (if wait then workers s else {})"
    and "tasks (queue (snd (stop wait s))) = replicate (nat (workers_count s)) STOP"
    and "\<not> running (snd (stop wait s))"
  using assms by (auto simp: stop_result)

text \<open>
  C5. An executor with two workers and a queue of capacity one, started and then stopped:
  the second \<open>put\<close> of the loop finds the queue full, \<open>stop\<close> ends with
  \<open>TooManyTasks\<close> and the queue holds one sentinel for two workers.
\<close>

theorem stop_raises_when_workers_exceed_capacity:
  "fst (stop True (snd (start (Executor_init ''pool'' 2 1 :: (nat, nat) Executor))))
     = Inl TooManyTasks \<and>
   tasks (queue (snd (stop True (snd (start (Executor_init ''pool'' 2 1 :: (nat, nat) Executor))))))
     = [STOP] \<and>
   workers_count (snd (start (Executor_init ''pool'' 2 1 :: (nat, nat) Executor))) = 2"
  by (simp add: stop_result start_frame Executor_init_def TaskQueue_init_def)

text \<open>
  C7. \<open>dispatch\<close> on an executor that is not running raises \<open>NotRunning\<close> and changes
  nothing. On a running executor whose queue holds fewer items than its capacity it
  appends the task made of the callable and the timeout to the queue and changes nothing
  else; when the queue holds exactly as many items as its capacity it raises
  \<open>TooManyTasks\<close> and changes nothing.
\<close>

theorem dispatch_cases:
  "(\<not> running s \<longrightarrow> dispatch c t s = (Inl NotRunning, s)) \<and>
   (running s \<and> int (length (tasks (queue s))) < max_tasks (queue s) \<longrightarrow>
      dispatch c t s =
        (Inr (), s\<lparr>queue := (queue s)\<lparr>tasks := tasks (queue s) @ [TaskItem (Task c t)]\<rparr>\<rparr>)) \<and>
   (running s \<and> int (length (tasks (queue s))) = max_tasks (queue s) \<longrightarrow>
      dispatch c t s = (Inl TooManyTasks, s))"
  by (simp add: dispatch_def put_def)

theorem dispatch_cases_witness:
  "dispatch (3::nat) (Some (5::nat)) (Executor_init ''pool'' 1 1) =
     (Inl NotRunning, Executor_init ''pool'' 1 1) \<and>
   dispatch (3::nat) (Some (5::nat)) ((Executor_init ''pool'' 1 1)\<lparr>running := True\<rparr>) =
     (Inr (), (Executor_init ''pool'' 1 1)
        \<lparr>running := True, queue := \<lparr>max_tasks = 1, tasks = [TaskItem (Task 3 (Some 5))]\<rparr>\<rparr>) \<and>
   dispatch (4::nat) (None :: nat option) ((Executor_init ''pool'' 1 0)\<lparr>running := True\<rparr>) =
     (Inl TooManyTasks, (Executor_init ''pool'' 1 0)\<lparr>running := True\<rparr>)"
  using dispatch_cases [of "Executor_init ''pool'' 1 1 :: (nat, nat) Executor" 3 "Some 5"]
    dispatch_cases [of "(Executor_init ''pool'' 1 1 :: (nat, nat) Executor)\<lparr>running := True\<rparr>" 3 "Some 5"]
    dispatch_cases [of "(Executor_init ''pool'' 1 0 :: (nat, nat) Executor)\<lparr>running := True\<rparr>" 4 None]
  by (simp add: Executor_init_def TaskQueue_init_def)

lemma notifications_append [simp]:
  "notifications (xs @ ys) = notifications xs + notifications ys"
  by (induction xs rule: notifications.induct) simp_all

lemma add_worker_result:
  "add_worker s =
     s\<lparr>worker_id := worker_id s + 1,
       log := log s @ [StartingWorker (name s @ ''/'' @ format_d (worker_id s))],
       heap := heap s @
         [\<lparr>wname = name s @ ''/'' @ format_d (worker_id s), discarded = False, wtask = None\<rparr>],
       workers := insert (length (heap s)) (workers s)\<rparr>"
  by (simp add: add_worker_def Worker_init_def debug_def Let_def)

lemma notifications_add_worker [simp]:
  "notifications (log (add_worker s)) = notifications (log s)"
  by (simp add: add_worker_result)

lemma notifications_worker_discarded:
  "notifications (log (worker_discarded w s)) = Suc (notifications (log s))"
  by (simp add: worker_discarded_def debug_def Let_def)

lemma heap_worker_discarded_nth:
  "v < length (heap s) \<Longrightarrow> heap (worker_discarded w s) ! v = heap s ! v"
  by (simp add: worker_discarded_def debug_def add_worker_result nth_append Let_def)

text \<open>
  C3. On a worker whose flag is set, \<open>_discard\<close> raises \<open>AssertionError\<close> and changes
  nothing. On a worker whose flag is not set it returns normally, the flag is set
  afterwards, and what it does after setting the flag and writing its log record is one
  call of \<open>_worker_discarded\<close>: the executor is notified once.
\<close>

theorem discard_once:
  "(discarded (heap s ! w) \<longrightarrow> discard w s = (Inl AssertionError, s)) \<and>
   (w < length (heap s) \<and> \<not> discarded (heap s ! w) \<longrightarrow>
      fst (discard w s) = Inr () \<and>
      discarded (heap (snd (discard w s)) ! w) \<and>
      snd (discard w s) =
        worker_discarded w
          (debug (WorkerDiscardedMsg ((heap s ! w)\<lparr>discarded := True\<rparr>)) (set_discarded w True s)) \<and>
      notifications (log (snd (discard w s))) = Suc (notifications (log s)))"
proof -
  have raise: "discard w s = (Inl AssertionError, s)" if "discarded (heap s ! w)"
    using that by (simp add: discard_def)
  have ok: "fst (discard w s) = Inr ()" if "\<not> discarded (heap s ! w)"
    using that by (simp add: discard_def Let_def)
  have flag: "discarded (heap (snd (discard w s)) ! w)"
    if "w < length (heap s)" "\<not> discarded (heap s ! w)"
    using that
    by (simp add: discard_def Let_def heap_worker_discarded_nth set_discarded_def debug_def)
  have count: "notifications (log (snd (discard w s))) = Suc (notifications (log s))"
    if "\<not> discarded (heap s ! w)"
    using that
    by (simp add: discard_def Let_def notifications_worker_discarded set_discarded_def debug_def)
  have once: "snd (discard w s) =
        worker_discarded w
          (debug (WorkerDiscardedMsg ((heap s ! w)\<lparr>discarded := True\<rparr>)) (set_discarded w True s))"
    if "w < length (heap s)" "\<not> discarded (heap s ! w)"
    using that by (simp add: discard_def Let_def set_discarded_def)
  from raise ok flag count once show ?thesis by blast
qed

theorem discard_once_witness:
  "discard 0 ((Executor_init ''pool'' 1 1 :: (nat, nat) Executor)
      \<lparr>heap := [\<lparr>wname = ''pool/0'', discarded = True, wtask = None\<rparr>]\<rparr>) =
     (Inl AssertionError, (Executor_init ''pool'' 1 1)
      \<lparr>heap := [\<lparr>wname = ''pool/0'', discarded = True, wtask = None\<rparr>]\<rparr>) \<and>
   fst (discard 0 ((Executor_init ''pool'' 1 1 :: (nat, nat) Executor)
      \<lparr>heap := [\<lparr>wname = ''pool/0'', discarded = False, wtask = None\<rparr>]\<rparr>)) = Inr () \<and>
   notifications (log (snd (discard 0 ((Executor_init ''pool'' 1 1 :: (nat, nat) Executor)
      \<lparr>heap := [\<lparr>wname = ''pool/0'', discarded = False, wtask = None\<rparr>]\<rparr>)))) = 1"
  using discard_once [of "(Executor_init ''pool'' 1 1 :: (nat, nat) Executor)
      \<lparr>heap := [\<lparr>wname = ''pool/0'', discarded = True, wtask = None\<rparr>]\<rparr>" 0]
    discard_once [of "(Executor_init ''pool'' 1 1 :: (nat, nat) Executor)
      \<lparr>heap := [\<lparr>wname = ''pool/0'', discarded = False, wtask = None\<rparr>]\<rparr>" 0]
  by (simp add: Executor_init_def worker_discarded_def debug_def set_discarded_def)

text \<open>
  C2. When the executor is running, \<open>_worker_discarded\<close> creates one worker object, named
  after the current value of the counter, and adds its reference to the set of workers;
  the set grows by one when its references are valid. When the executor is not running,
  no worker is created and the set stays as it is.
\<close>

theorem worker_discarded_replaces:
  "(running s \<longrightarrow>
      heap (worker_discarded w s) = heap s @
        [\<lparr>wname = name s @ ''/'' @ format_d (worker_id s), discarded = False, wtask = None\<rparr>] \<and>
      workers (worker_discarded w s) = insert (length (heap s)) (workers s) \<and>
      (valid_refs s \<longrightarrow> card (workers (worker_discarded w s)) = Suc (card (workers s)))) \<and>
   (\<not> running s \<longrightarrow>
      heap (worker_discarded w s) = heap s \<and> workers (worker_discarded w s) = workers s)"
proof -
  have "card (insert (length (heap s)) (workers s)) = Suc (card (workers s))" if "valid_refs s"
  proof -
    from that have "finite (workers s)" and "length (heap s) \<notin> workers s"
      by (auto simp: valid_refs_def)
    then show ?thesis by simp
  qed
  then show ?thesis
    by (simp add: worker_discarded_def debug_def add_worker_result Let_def)
qed

theorem worker_discarded_replaces_witness:
  "running (add_worker ((Executor_init ''pool'' 1 1 :: (nat, nat) Executor)\<lparr>running := True\<rparr>)) \<and>
   valid_refs (add_worker ((Executor_init ''pool'' 1 1 :: (nat, nat) Executor)\<lparr>running := True\<rparr>)) \<and>
   workers (worker_discarded 0
     (add_worker ((Executor_init ''pool'' 1 1 :: (nat, nat) Executor)\<lparr>running := True\<rparr>))) = {0, 1} \<and>
   card (workers (worker_discarded 0
     (add_worker ((Executor_init ''pool'' 1 1 :: (nat, nat) Executor)\<lparr>running := True\<rparr>)))) = 2 \<and>
   \<not> running (Executor_init ''pool'' 1 1 :: (nat, nat) Executor) \<and>
   workers (worker_discarded 0 (Executor_init ''pool'' 1 1 :: (nat, nat) Executor)) = {}"
  using worker_discarded_replaces
      [of "add_worker ((Executor_init ''pool'' 1 1 :: (nat, nat) Executor)\<lparr>running := True\<rparr>)" 0]
    worker_discarded_replaces [of "Executor_init ''pool'' 1 1 :: (nat, nat) Executor" 0]
  by (auto simp: valid_refs_def add_worker_result Executor_init_def)

subsection \<open>One iteration of a worker\<close>

lemma queue_discard [simp]: "queue (snd (discard w s)) = queue s"
  by (simp add: discard_def worker_discarded_def add_worker_result set_discarded_def debug_def
      Let_def)

lemma execute_task_shortens:
  "execute_task e w s = Some (r, s1) \<Longrightarrow> length (tasks (queue s1)) < length (tasks (queue s))"
  by (auto simp: execute_task_def called_def next_task_def get_def set_task_def debug_def Let_def
      split: option.splits list.splits sum.splits prod.splits item.splits if_splits)

lemma queue_leave_loop [simp]: "queue (snd (leave_loop x w s)) = queue s"
  by (simp add: leave_loop_def worker_stopped_def debug_def Let_def)

lemma run_loop_Some:
  "execute_task e w s = Some (Inr u, s1) \<Longrightarrow> run_loop e w s = run_loop e w s1"
  "execute_task e w s = Some (Inl x, s1) \<Longrightarrow> run_loop e w s = leave_loop x w s1"
  "execute_task e w s = None \<Longrightarrow> run_loop e w s = (Waiting, s)"
  by simp_all

lemma run_loop_queue_le:
  "length (tasks (queue (snd (run_loop e w s)))) \<le> length (tasks (queue s))"
proof (induction e w s rule: run_loop.induct)
  case (1 e w s)
  show ?case
  proof (cases "execute_task e w s")
    case None
    then show ?thesis by simp
  next
    case (Some p)
    obtain r s1 where p: "p = (r, s1)" by (cases p)
    with Some have short: "length (tasks (queue s1)) < length (tasks (queue s))"
      by (simp add: execute_task_shortens)
    show ?thesis
    proof (cases r)
      case (Inl x)
      with Some p short show ?thesis by simp
    next
      case (Inr u)
      with Some p have "length (tasks (queue (snd (run_loop e w s1)))) \<le> length (tasks (queue s1))"
        using "1.IH" [of p r s1 u] by simp
      with Some p Inr short show ?thesis by simp
    qed
  qed
qed

lemma execute_task_no_timer:
  assumes "w < length (heap s)" and "\<not> discarded (heap s ! w)"
    and "tasks (queue s) = TaskItem t # rest"
    and "timeout t = None \<or> \<not> expires e t"
  shows "\<exists>s'. execute_task e w s =
            Some (if call e (callable t) = RaisesBaseException then Inl BaseException else Inr (), s') \<and>
          tasks (queue s') = rest \<and> \<not> discarded (heap s' ! w) \<and> wtask (heap s' ! w) = None \<and>
          log s' = log s @ (if call e (callable t) = RaisesException then [UnhandledException t] else []) \<and>
          workers s' = workers s \<and> length (heap s') = length (heap s)"
  using assms
  by (auto simp: execute_task_def called_def next_task_def get_def discard_after_def set_task_def debug_def
      Let_def)

lemma execute_task_timer:
  assumes "w < length (heap s)" and "\<not> discarded (heap s ! w)"
    and "tasks (queue s) = TaskItem t # rest"
    and "timeout t \<noteq> None" and "expires e t"
  shows "\<exists>s'. execute_task e w s = Some (Inl WorkerDiscarded, s') \<and>
          tasks (queue s') = rest \<and> discarded (heap s' ! w) \<and> wtask (heap s' ! w) = None \<and>
          notifications (log s') = Suc (notifications (log s)) \<and>
          (UnhandledException t \<in> set (log s')) = (call e (callable t) = RaisesException \<or> UnhandledException t \<in> set (log s)) \<and>
          (w \<in> workers s \<longrightarrow> w \<in> workers s')"
  using assms
  by (auto simp: execute_task_def called_def next_task_def get_def discard_after_def set_task_def debug_def
      discard_def set_discarded_def worker_discarded_def add_worker_result nth_append Let_def)

declare run_loop.simps [simp del]

lemma execute_task_None_iff: "execute_task e w s = None \<longleftrightarrow> tasks (queue s) = []"
  by (auto simp: execute_task_def called_def next_task_def get_def Let_def
      split: list.splits item.splits)

lemma run_loop_queue_less:
  assumes "tasks (queue s) \<noteq> []"
  shows "length (tasks (queue (snd (run_loop e w s)))) < length (tasks (queue s))"
proof -
  from assms obtain r s1 where ex: "execute_task e w s = Some (r, s1)"
    using execute_task_None_iff [of e w s] by (cases "execute_task e w s") auto
  then have short: "length (tasks (queue s1)) < length (tasks (queue s))"
    by (rule execute_task_shortens)
  show ?thesis
  proof (cases r)
    case (Inl x)
    with ex short show ?thesis by (simp add: run_loop_Some)
  next
    case (Inr u)
    with ex have "run_loop e w s = run_loop e w s1" by (simp add: run_loop_Some)
    with short run_loop_queue_le [of e w s1] show ?thesis by simp
  qed
qed


subsection \<open>The example\<close>

lemma example_pool_eq:
  "example_pool =
     \<lparr>name = ''pool'', workers_count = 1, worker_id = 1,
      queue = \<lparr>max_tasks = 2, tasks = [TaskItem (Task 0 (Some 5)), TaskItem (Task 1 None)]\<rparr>,
      workers = {0}, running = True,
      heap = [\<lparr>wname = ''pool/0'', discarded = False, wtask = None\<rparr>],
      log = [StartingExecutor, StartingWorker ''pool/0''], calls = []\<rparr>"
  by (simp add: dispatch_def put_def start_def debug_def add_worker_result Executor_init_def
      TaskQueue_init_def format_d_def digits.simps Let_def)

lemmas evaluate_run =
  run_def run_loop.simps execute_task_def called_def next_task_def get_def discard_after_def set_task_def
  debug_def discard_def set_discarded_def worker_discarded_def add_worker_result leave_loop_def
  worker_stopped_def format_d_def digits.simps Let_def insert_Diff_if


lemma execute_task_head:
  assumes "w < length (heap s)" and "tasks (queue s) = TaskItem t # rest"
  shows "\<exists>s'. execute_task e w s =
            Some (if discarded (heap s ! w) \<or> timeout t \<noteq> None \<and> expires e t
                  then Inl WorkerDiscarded
                  else if call e (callable t) = RaisesBaseException then Inl BaseException
                  else Inr (), s') \<and>
          tasks (queue s') = rest \<and> calls s' = calls s @ [callable t] \<and>
          wtask (heap s' ! w) = None \<and>
          discarded (heap s' ! w) = (discarded (heap s ! w) \<or> timeout t \<noteq> None \<and> expires e t) \<and>
          count_list (log s') (UnhandledException t) =
            count_list (log s) (UnhandledException t) +
              (if call e (callable t) = RaisesException then 1 else 0) \<and>
          (w \<in> workers s \<longrightarrow> w \<in> workers s')"
  using assms
  by (cases "timeout t")
    (auto simp: execute_task_def called_def next_task_def get_def discard_after_def
      set_task_def debug_def discard_def set_discarded_def worker_discarded_def add_worker_result
      nth_append Let_def)

lemma run_loop_after_iteration:
  assumes "execute_task e w s = Some (Inr (), s')" and "tasks (queue s') = rest"
  shows "run_loop e w s = run_loop e w s'"
    and "rest \<noteq> [] \<Longrightarrow> length (tasks (queue (snd (run_loop e w s)))) < length rest"
    and "rest = [] \<Longrightarrow> fst (run_loop e w s) = Waiting"
proof -
  from assms(1) show run: "run_loop e w s = run_loop e w s'" by (simp add: run_loop_Some)
  show "length (tasks (queue (snd (run_loop e w s)))) < length rest" if "rest \<noteq> []"
    using that run assms(2) run_loop_queue_less [of s' e w] by simp
  show "fst (run_loop e w s) = Waiting" if "rest = []"
  proof -
    from that assms(2) have "execute_task e w s' = None" by (simp add: execute_task_None_iff)
    then have "run_loop e w s' = (Waiting, s')" by (rule run_loop_Some(3))
    with run show ?thesis by simp
  qed
qed




text \<open>
  C8, as the code has it. When the callable of the task at the head of the queue raises an
  \<open>Exception\<close>, the iteration of a worker, discarded or not, calls it once and ends
  normally or with \<open>WorkerDiscarded\<close> (normally exactly when the flag is not set at the
  end), never with the exception of the callable, and the log gains one record of the
  unhandled exception. If the flag is not set at the end, the loop goes on: if the queue
  is not empty then the worker takes at least one more item from it, and if it is empty
  the worker waits in \<open>get\<close>. If the worker was not discarded before and no timer
  expires, the iteration ends normally having written exactly that record.
\<close>

theorem callable_exception_contained:
  assumes "w < length (heap s)" and "tasks (queue s) = TaskItem t # rest"
    and "call e (callable t) = RaisesException"
  shows "(\<exists>r s'. execute_task e w s = Some (r, s') \<and>
            (r = Inr () \<or> r = Inl WorkerDiscarded) \<and>
            (r = Inr ()) = (\<not> discarded (heap s' ! w)) \<and>
            calls s' = calls s @ [callable t] \<and> tasks (queue s') = rest \<and>
            UnhandledException t \<in> set (log s') \<and>
            count_list (log s') (UnhandledException t) =
              Suc (count_list (log s) (UnhandledException t)) \<and>
            (\<not> discarded (heap s' ! w) \<longrightarrow>
               run_loop e w s = run_loop e w s' \<and>
               (rest \<noteq> [] \<longrightarrow> length (tasks (queue (snd (run_loop e w s)))) < length rest) \<and>
               (rest = [] \<longrightarrow> fst (run_loop e w s) = Waiting))) \<and>
         (\<not> discarded (heap s ! w) \<and> (timeout t = None \<or> \<not> expires e t) \<longrightarrow>
            (\<exists>s'. execute_task e w s = Some (Inr (), s') \<and>
                  log s' = log s @ [UnhandledException t] \<and> tasks (queue s') = rest \<and>
                  run_loop e w s = run_loop e w s') \<and>
            (rest \<noteq> [] \<longrightarrow> length (tasks (queue (snd (run_loop e w s)))) < length rest) \<and>
            (rest = [] \<longrightarrow> fst (run_loop e w s) = Waiting))"
proof (rule conjI)
  define r where "r =
    (if discarded (heap s ! w) \<or> timeout t \<noteq> None \<and> expires e t then Inl WorkerDiscarded
     else (Inr () :: error + unit))"
  from assms(1,2) obtain s' where ex0: "execute_task e w s =
        Some (if discarded (heap s ! w) \<or> timeout t \<noteq> None \<and> expires e t
              then Inl WorkerDiscarded
              else if call e (callable t) = RaisesBaseException then Inl BaseException
              else Inr (), s')"
    and queue: "tasks (queue s') = rest" and trace: "calls s' = calls s @ [callable t]"
    and flag: "discarded (heap s' ! w) =
      (discarded (heap s ! w) \<or> timeout t \<noteq> None \<and> expires e t)"
    and count0: "count_list (log s') (UnhandledException t) =
      count_list (log s) (UnhandledException t) +
        (if call e (callable t) = RaisesException then 1 else 0)"
    using execute_task_head [of w s t rest e] by blast
  from ex0 assms(3) have ex: "execute_task e w s = Some (r, s')" by (simp add: r_def)
  from count0 assms(3) have count: "count_list (log s') (UnhandledException t) =
      Suc (count_list (log s) (UnhandledException t))"
    by simp
  from count have logged: "UnhandledException t \<in> set (log s')"
    using count_list_0_iff [of "log s'" "UnhandledException t"] by auto
  have kind: "r = Inr () \<or> r = Inl WorkerDiscarded" and iff: "(r = Inr ()) = (\<not> discarded (heap s' ! w))"
    using flag by (auto simp: r_def)
  have stays: "run_loop e w s = run_loop e w s' \<and>
      (rest \<noteq> [] \<longrightarrow> length (tasks (queue (snd (run_loop e w s)))) < length rest) \<and>
      (rest = [] \<longrightarrow> fst (run_loop e w s) = Waiting)"
    if unset: "\<not> discarded (heap s' ! w)"
  proof -
    from unset iff ex have "execute_task e w s = Some (Inr (), s')" by simp
    from run_loop_after_iteration [OF this queue] show ?thesis by blast
  qed
  from ex kind iff trace queue logged count stays
  show "\<exists>r s'. execute_task e w s = Some (r, s') \<and>
            (r = Inr () \<or> r = Inl WorkerDiscarded) \<and>
            (r = Inr ()) = (\<not> discarded (heap s' ! w)) \<and>
            calls s' = calls s @ [callable t] \<and> tasks (queue s') = rest \<and>
            UnhandledException t \<in> set (log s') \<and>
            count_list (log s') (UnhandledException t) =
              Suc (count_list (log s) (UnhandledException t)) \<and>
            (\<not> discarded (heap s' ! w) \<longrightarrow>
               run_loop e w s = run_loop e w s' \<and>
               (rest \<noteq> [] \<longrightarrow> length (tasks (queue (snd (run_loop e w s)))) < length rest) \<and>
               (rest = [] \<longrightarrow> fst (run_loop e w s) = Waiting))"
    by blast
next
  show "\<not> discarded (heap s ! w) \<and> (timeout t = None \<or> \<not> expires e t) \<longrightarrow>
            (\<exists>s'. execute_task e w s = Some (Inr (), s') \<and>
                  log s' = log s @ [UnhandledException t] \<and> tasks (queue s') = rest \<and>
                  run_loop e w s = run_loop e w s') \<and>
            (rest \<noteq> [] \<longrightarrow> length (tasks (queue (snd (run_loop e w s)))) < length rest) \<and>
            (rest = [] \<longrightarrow> fst (run_loop e w s) = Waiting)"
  proof
    assume quiet: "\<not> discarded (heap s ! w) \<and> (timeout t = None \<or> \<not> expires e t)"
    with assms obtain s' where ex: "execute_task e w s = Some (Inr (), s')"
      and s': "tasks (queue s') = rest" "log s' = log s @ [UnhandledException t]"
      using execute_task_no_timer [of w s t rest e] by auto
    from run_loop_after_iteration [OF ex s'(1)] ex s'
    show "(\<exists>s'. execute_task e w s = Some (Inr (), s') \<and>
                  log s' = log s @ [UnhandledException t] \<and> tasks (queue s') = rest \<and>
                  run_loop e w s = run_loop e w s') \<and>
            (rest \<noteq> [] \<longrightarrow> length (tasks (queue (snd (run_loop e w s)))) < length rest) \<and>
            (rest = [] \<longrightarrow> fst (run_loop e w s) = Waiting)"
      by blast
  qed
qed


theorem callable_exception_contained_witness:
  "0 < length (heap example_pool) \<and>
   tasks (queue example_pool) = [TaskItem (Task 0 (Some 5)), TaskItem (Task 1 None)] \<and>
   call failing (callable (Task 0 (Some 5))) = RaisesException \<and>
   (\<exists>s'. execute_task failing 0 example_pool = Some (Inr (), s') \<and>
      log s' = log example_pool @ [UnhandledException (Task 0 (Some 5))]) \<and>
   length (tasks (queue (snd (run_loop failing 0 example_pool)))) < 1 \<and>
   0 < length (heap (set_discarded 0 True example_pool)) \<and>
   (\<exists>r s'. execute_task failing 0 (set_discarded 0 True example_pool) = Some (r, s') \<and>
      (r = Inr () \<or> r = Inl WorkerDiscarded) \<and>
      UnhandledException (Task 0 (Some 5)) \<in> set (log s'))"
proof -
  have h1: "0 < length (heap example_pool)"
    unfolding example_pool_eq by simp
  have h2: "\<not> discarded (heap example_pool ! 0)"
    unfolding example_pool_eq by simp
  have h3: "tasks (queue example_pool) = TaskItem (Task 0 (Some 5)) # [TaskItem (Task 1 None)]"
    unfolding example_pool_eq by simp
  have h4: "call failing (callable (Task 0 (Some 5))) = RaisesException"
    by simp
  have f1: "0 < length (heap (set_discarded 0 True example_pool))"
    unfolding example_pool_eq by (simp add: set_discarded_def)
  have f3: "tasks (queue (set_discarded 0 True example_pool)) =
      TaskItem (Task 0 (Some 5)) # [TaskItem (Task 1 None)]"
    unfolding example_pool_eq by (simp add: set_discarded_def)
  from callable_exception_contained [OF f1 f3 h4]
  have flagged: "\<exists>r s'. execute_task failing 0 (set_discarded 0 True example_pool) = Some (r, s') \<and>
      (r = Inr () \<or> r = Inl WorkerDiscarded) \<and>
      UnhandledException (Task 0 (Some 5)) \<in> set (log s')"
    by blast
  from callable_exception_contained [OF h1 h3 h4] h2
  have unflagged: "(\<exists>s'. execute_task failing 0 example_pool = Some (Inr (), s') \<and>
      log s' = log example_pool @ [UnhandledException (Task 0 (Some 5))]) \<and>
      length (tasks (queue (snd (run_loop failing 0 example_pool)))) < 1"
    by auto
  from h1 h3 h4 f1 flagged unflagged show ?thesis by simp
qed

text \<open>
  C8 as stated covers every exception. \<open>except Exception\<close> does not catch an exception
  that is not an instance of \<open>Exception\<close>: when the callable raises \<open>SystemExit\<close>, the
  iteration ends with it, the thread function is left by it, and the log has no record of
  an unhandled exception.
\<close>

theorem system_exit_escapes:
  "map_option fst (execute_task exiting 0 example_pool) = Some (Inl BaseException) \<and>
   fst (run exiting 0 example_pool) = Died BaseException \<and>
   UnhandledException (Task 0 (Some 5)) \<notin> set (log (snd (run exiting 0 example_pool)))"
  unfolding example_pool_eq by (simp add: evaluate_run)

subsection \<open>Worker names\<close>

lemma digits_not_empty: "digits n \<noteq> []"
  by (subst digits.simps) simp

lemma digit_char_inj:
  assumes "a < 10" and "b < 10" and "''0123456789'' ! a = ''0123456789'' ! b"
  shows "a = b"
proof -
  have "distinct ''0123456789''" by simp
  moreover have "a < length ''0123456789''" and "b < length ''0123456789''"
    using assms by simp_all
  ultimately show ?thesis using assms(3) by (simp only: nth_eq_iff_index_eq)
qed

lemma digits_inj: "digits m = digits n \<Longrightarrow> m = n"
proof (induction m arbitrary: n rule: digits.induct)
  case (1 m)
  show ?case
  proof (cases "m < 10")
    case small: True
    show ?thesis
    proof (cases "n < 10")
      case True
      with small "1.prems" show ?thesis
        by (simp add: digits.simps [of m] digits.simps [of n] digit_char_inj)
    next
      case False
      with small "1.prems" show ?thesis
        using digits_not_empty [of "n div 10"]
        by (simp add: digits.simps [of m] digits.simps [of n])
    qed
  next
    case large: False
    show ?thesis
    proof (cases "n < 10")
      case True
      with large "1.prems" show ?thesis
        using digits_not_empty [of "m div 10"]
        by (simp add: digits.simps [of m] digits.simps [of n])
    next
      case False
      with large "1.prems" have tens: "digits (m div 10) = digits (n div 10)"
        and units: "''0123456789'' ! (m mod 10) = ''0123456789'' ! (n mod 10)"
        by (simp_all add: digits.simps [of m] digits.simps [of n])
      from large tens have "m div 10 = n div 10" by (rule "1.IH")
      moreover from units have "m mod 10 = n mod 10" by (intro digit_char_inj) simp_all
      ultimately show ?thesis by (metis div_mult_mod_eq)
    qed
  qed
qed

lemma format_d_int: "format_d (int i) = digits i"
  by (simp add: format_d_def)

lemma names_ok_distinct:
  assumes "names_ok s"
  shows "distinct (map wname (heap s))"
proof -
  have "inj_on (\<lambda>i. name s @ ''/'' @ format_d (int i)) A" for A
    by (rule inj_onI) (simp add: format_d_int digits_inj)
  then have "distinct (map (\<lambda>i. name s @ ''/'' @ format_d (int i)) [0..<length (heap s)])"
    by (simp add: distinct_map)
  with assms show ?thesis by (simp add: names_ok_def)
qed

subsection \<open>Every event extends the state\<close>

lemma extends_refl [simp]: "extends s s"
  by (simp add: extends_def)

lemma extends_trans [trans]: "extends s t \<Longrightarrow> extends t u \<Longrightarrow> extends s u"
  by (auto simp: extends_def)

lemma extends_debug [simp]: "extends s (debug x s)"
  by (simp add: extends_def consistent_def valid_refs_def names_ok_def debug_def)

lemma extends_queue [simp]: "extends s (s\<lparr>queue := q\<rparr>)"
  by (simp add: extends_def consistent_def valid_refs_def names_ok_def)

lemma extends_running [simp]: "extends s (s\<lparr>running := b\<rparr>)"
  by (simp add: extends_def consistent_def valid_refs_def names_ok_def)

lemma extends_remove [simp]: "extends s (s\<lparr>workers := workers s - {w}\<rparr>)"
  by (simp add: extends_def consistent_def valid_refs_def names_ok_def)

lemma wname_update:
  "wname x = wname (xs ! w) \<Longrightarrow> map wname (xs[w := x]) = map wname xs"
  by (cases "w < length xs") (auto intro!: nth_equalityI simp: nth_list_update)

lemma extends_called [simp]: "extends s (called c s)"
  by (simp add: extends_def consistent_def valid_refs_def names_ok_def called_def)

lemma extends_set_task [simp]: "extends s (set_task w t s)"
  by (simp add: extends_def consistent_def valid_refs_def names_ok_def set_task_def wname_update)

lemma extends_set_discarded [simp]: "extends s (set_discarded w b s)"
  by (simp add: extends_def consistent_def valid_refs_def names_ok_def set_discarded_def
      wname_update)

lemma extends_add_worker [simp]: "extends s (add_worker s)"
  by (auto simp: extends_def consistent_def valid_refs_def names_ok_def add_worker_result)

lemma extends_add_workers [simp]: "extends s ((add_worker ^^ n) s)"
proof (induction n)
  case 0
  show ?case by simp
next
  case (Suc n)
  from Suc extends_add_worker [of "(add_worker ^^ n) s"] show ?case
    by (auto intro: extends_trans)
qed

lemma extends_start: "extends s (snd (start s))"
proof -
  let ?s1 = "debug StartingExecutor s"
  let ?s2 = "?s1\<lparr>running := True\<rparr>"
  have "extends s ?s1" by simp
  also have "extends ?s1 ?s2" by simp
  also have "extends ?s2 ((add_worker ^^ nat (workers_count ?s1)) ?s2)" by simp
  finally have "extends s ((add_worker ^^ nat (workers_count ?s1)) ?s2)" .
  then show ?thesis by (simp add: start_def Let_def)
qed

lemma extends_stop: "extends s (snd (stop wait s))"
  by (simp add: stop_result extends_def consistent_def valid_refs_def names_ok_def debug_def)

lemma extends_dispatch: "extends s (snd (dispatch c t s))"
  by (simp add: dispatch_def split: prod.splits)

lemma extends_worker_discarded: "extends s (worker_discarded w s)"
proof -
  let ?s1 = "if running s then add_worker s else s"
  have "extends s ?s1" by simp
  also have "extends ?s1 (debug (ExecutorState (card (workers ?s1))) ?s1)" by simp
  finally show ?thesis by (simp add: worker_discarded_def Let_def)
qed

lemma extends_discard: "extends s (snd (discard w s))"
proof (cases "discarded (heap s ! w)")
  case True
  then show ?thesis by (simp add: discard_def)
next
  case False
  let ?s1 = "set_discarded w True s"
  let ?s2 = "debug (WorkerDiscardedMsg (heap ?s1 ! w)) ?s1"
  have "extends s ?s1" by simp
  also have "extends ?s1 ?s2" by simp
  also have "extends ?s2 (worker_discarded w ?s2)" by (rule extends_worker_discarded)
  finally show ?thesis using False by (simp add: discard_def Let_def)
qed

lemma extends_worker_stopped: "extends s (snd (worker_stopped w s))"
  by (simp add: worker_stopped_def)

lemma extends_next_task: "next_task s = Some (r, s1) \<Longrightarrow> extends s s1"
  by (auto simp: next_task_def split: option.splits)

lemma extends_execute_task:
  assumes "execute_task e w s = Some (r, s')"
  shows "extends s s'"
proof (cases "next_task s")
  case None
  with assms show ?thesis by (simp add: execute_task_def called_def)
next
  case (Some p)
  obtain x s1 where p: "p = (x, s1)" by (cases p)
  with Some have first: "extends s s1" by (simp add: extends_next_task)
  show ?thesis
  proof (cases x)
    case (Inl err)
    with assms Some p first show ?thesis by (auto simp: execute_task_def called_def)
  next
    case (Inr task)
    let ?s2 = "called (callable task) (set_task w (Some task) s1)"
    let ?s3 = "if discard_after (timeout task) \<noteq> None \<and> expires e task
               then snd (discard w ?s2) else ?s2"
    let ?s4 = "if call e (callable task) = RaisesException
               then debug (UnhandledException task) ?s3 else ?s3"
    let ?s5 = "set_task w None ?s4"
    from assms Some p Inr have s': "s' = ?s5" by (auto simp: execute_task_def called_def Let_def)
    note first
    also have "extends s1 (set_task w (Some task) s1)" by simp
    also have "extends (set_task w (Some task) s1) ?s2" by simp
    also have "extends ?s2 ?s3" by (simp add: extends_discard)
    also have "extends ?s3 ?s4" by simp
    also have "extends ?s4 ?s5" by simp
    finally show ?thesis using s' by simp
  qed
qed

lemma extends_leave_loop: "extends s (snd (leave_loop x w s))"
proof -
  let ?s1 = "if x = NotRunning then debug WorkerStopped s
             else if x = WorkerDiscarded then debug WorkerWasDiscarded s else s"
  have same: "snd (leave_loop x w s) = snd (worker_stopped w ?s1)"
    by (simp add: leave_loop_def worker_stopped_def Let_def)
  have "extends s ?s1" by simp
  also have "extends ?s1 (snd (worker_stopped w ?s1))" by (rule extends_worker_stopped)
  finally show ?thesis by (simp only: same)
qed

lemma extends_run_loop: "extends s (snd (run_loop e w s))"
proof (induction e w s rule: run_loop.induct)
  case (1 e w s)
  show ?case
  proof (cases "execute_task e w s")
    case None
    then show ?thesis by (simp add: run_loop_Some)
  next
    case (Some p)
    obtain r s1 where p: "p = (r, s1)" by (cases p)
    with Some have first: "extends s s1" by (simp add: extends_execute_task)
    show ?thesis
    proof (cases r)
      case (Inl x)
      with Some p have "run_loop e w s = leave_loop x w s1" by (simp add: run_loop_Some)
      with first extends_leave_loop [of s1 x w] show ?thesis by (auto intro: extends_trans)
    next
      case (Inr u)
      with Some p have "run_loop e w s = run_loop e w s1" by (simp add: run_loop_Some)
      moreover from Some p Inr have "extends s1 (snd (run_loop e w s1))"
        using "1.IH" [of p r s1 u] by simp
      ultimately show ?thesis using first by (auto intro: extends_trans)
    qed
  qed
qed

lemma extends_run: "extends s (snd (run e w s))"
proof -
  have "extends s (debug WorkerStarted s)" by simp
  also have "extends (debug WorkerStarted s) (snd (run_loop e w (debug WorkerStarted s)))"
    by (rule extends_run_loop)
  finally show ?thesis by (simp add: run_def)
qed

lemma extends_step: "extends s (step e ev s)"
  by (cases ev)
    (simp_all add: extends_start extends_stop extends_dispatch extends_run extends_run_loop
      extends_discard)

lemma extends_fold_step: "extends s (fold (step e) evs s)"
proof (induction evs arbitrary: s)
  case Nil
  show ?case by simp
next
  case (Cons ev evs)
  from extends_step [of s e ev] Cons [of "step e ev s"] show ?case
    by (auto intro: extends_trans)
qed

lemma consistent_init: "consistent (Executor_init nm n m)"
  by (simp add: consistent_def valid_refs_def names_ok_def Executor_init_def)

lemma consistent_history:
  "consistent (fold (step e) evs (Executor_init nm n m))"
  "name (fold (step e) evs (Executor_init nm n m)) = nm"
proof -
  have ext: "extends (Executor_init nm n m) (fold (step e) evs (Executor_init nm n m))"
    by (rule extends_fold_step)
  then show "consistent (fold (step e) evs (Executor_init nm n m))"
    by (simp add: extends_def consistent_init)
  have "name (Executor_init nm n m :: ('a, 'b) Executor) = nm"
    by (simp add: Executor_init_def)
  with ext show "name (fold (step e) evs (Executor_init nm n m)) = nm"
    by (simp add: extends_def)
qed

text \<open>
  The references in the set of workers are valid in every state that any history leads to.
\<close>

lemma valid_refs_history: "valid_refs (fold (step e) evs (Executor_init nm n m))"
  using consistent_history(1) [of e evs nm n m] by (simp add: consistent_def)

text \<open>
  C10. After any history of a new executor, the workers created so far are named
  \<open>name/0\<close>, \<open>name/1\<close>, ... in the order of their creation, the counter equals their
  number, and no two of them have the same name. \<open>_add_worker\<close> adds one to the counter,
  \<open>stop\<close> leaves it as it is, and no event makes it smaller.
\<close>

theorem worker_names_distinct:
  "map wname (heap (fold (step e) evs (Executor_init nm n m))) =
     map (\<lambda>i. nm @ ''/'' @ format_d (int i))
       [0..<length (heap (fold (step e) evs (Executor_init nm n m)))] \<and>
   distinct (map wname (heap (fold (step e) evs (Executor_init nm n m)))) \<and>
   worker_id (fold (step e) evs (Executor_init nm n m)) =
     int (length (heap (fold (step e) evs (Executor_init nm n m)))) \<and>
   worker_id (add_worker s) = worker_id s + 1 \<and>
   worker_id (snd (stop wait s)) = worker_id s \<and>
   worker_id s \<le> worker_id (step e ev s)"
proof -
  let ?S = "fold (step e) evs (Executor_init nm n m)"
  have ok: "names_ok ?S" and nm: "name ?S = nm"
    using consistent_history [of e evs nm n m] by (simp_all add: consistent_def)
  from ok nm have "map wname (heap ?S) = map (\<lambda>i. nm @ ''/'' @ format_d (int i)) [0..<length (heap ?S)]"
    and "worker_id ?S = int (length (heap ?S))"
    by (simp_all add: names_ok_def)
  moreover from ok have "distinct (map wname (heap ?S))" by (rule names_ok_distinct)
  moreover have "worker_id (add_worker s) = worker_id s + 1" by (simp add: add_worker_result)
  moreover have "worker_id (snd (stop wait s)) = worker_id s"
    by (simp add: stop_result debug_def)
  moreover have "worker_id s \<le> worker_id (step e ev s)"
    using extends_step [of s e ev] by (simp add: extends_def)
  ultimately show ?thesis by blast
qed

end
